theory Spec2Isabelle
  imports Main "HOL-Library.Sublist" "HOL-Library.AList"
begin

section \<open>Python strings\<close>

text \<open>
  A Python \<open>str\<close> is modelled as a \<open>string\<close>, a list of 8-bit characters: the texts
  covered are those whose code points are below 256 (Latin-1). The tables of
  \<open>str.isspace\<close> and \<open>str.lower\<close> below are complete for that range.
\<close>

definition isspace :: "char \<Rightarrow> bool" where
  "isspace c = (let n = (of_char c :: nat) in
     (9 \<le> n \<and> n \<le> 13) \<or> (28 \<le> n \<and> n \<le> 32) \<or> n = 133 \<or> n = 160)"

text \<open>\<open>text.strip()\<close>: leading and trailing whitespace removed.\<close>

definition strip :: "string \<Rightarrow> string" where
  "strip s = rev (dropWhile isspace (rev (dropWhile isspace s)))"

definition lower_char :: "char \<Rightarrow> char" where
  "lower_char c = (let n = (of_char c :: nat) in
     if (65 \<le> n \<and> n \<le> 90) \<or> (192 \<le> n \<and> n \<le> 222 \<and> n \<noteq> 215)
     then char_of (n + 32) else c)"

definition lower :: "string \<Rightarrow> string" where
  "lower s = map lower_char s"

text \<open>\<open>sub in s\<close>: \<open>sub\<close> occurs in \<open>s\<close> as a contiguous run.\<close>

fun str_contains :: "string \<Rightarrow> string \<Rightarrow> bool" where
  "str_contains sub [] = (sub = [])"
| "str_contains sub (c # cs) = (prefix sub (c # cs) \<or> str_contains sub cs)"

text \<open>\<open>s.find(c)\<close> and \<open>s.rfind(c)\<close> for a one-character needle: the index of the first
  (last) occurrence, or \<open>-1\<close>.\<close>

fun find_from :: "char \<Rightarrow> string \<Rightarrow> int \<Rightarrow> int" where
  "find_from c [] i = -1"
| "find_from c (x # xs) i = (if x = c then i else find_from c xs (i + 1))"

definition str_find :: "string \<Rightarrow> char \<Rightarrow> int" where
  "str_find s c = find_from c s 0"

definition str_rfind :: "string \<Rightarrow> char \<Rightarrow> int" where
  "str_rfind s c = (let r = find_from c (rev s) 0 in
     if r = -1 then -1 else int (length s) - 1 - r)"

text \<open>\<open>s[a:b]\<close> for indices that are not negative.\<close>

definition slice :: "string \<Rightarrow> int \<Rightarrow> int \<Rightarrow> string" where
  "slice s a b = drop (nat a) (take (nat b) s)"

text \<open>\<open>sep.join(xs)\<close>.\<close>

fun join :: "string \<Rightarrow> string list \<Rightarrow> string" where
  "join sep [] = []"
| "join sep [x] = x"
| "join sep (x # y # ys) = x @ sep @ join sep (y # ys)"

section \<open>The transcript query selector\<close>

definition query_ai :: string where
  "query_ai = ''What is management's outlook on AI and digital transformation?''"

definition query_outlook :: string where
  "query_outlook = ''What is management's forward-looking guidance and outlook?''"

definition query_risk :: string where
  "query_risk = ''What risks and challenges did management discuss?''"

definition query_generic :: string where
  "query_generic =
     ''What are the key themes and strategic focus areas discussed by management?''"

definition extract_transcript_query :: "string \<Rightarrow> string" where
  "extract_transcript_query task = (let task_lower = lower task in
     if str_contains ''ai'' task_lower \<or> str_contains ''artificial intelligence'' task_lower
     then query_ai
     else if str_contains ''outlook'' task_lower \<or> str_contains ''forecast'' task_lower
     then query_outlook
     else if str_contains ''risk'' task_lower
     then query_risk
     else query_generic)"

section \<open>Exceptions and JSON values\<close>

text \<open>
  The exceptions that matter to the recovery logic. \<open>Exception m\<close> stands for any other
  exception, with its message.

  A JSON value as \<open>json.loads\<close> builds it. A Python \<open>int\<close> is an \<open>int\<close>; a \<open>float\<close> is kept
  as the numeral it was read from (rounding to a double is not modelled); a decoded
  string is a list of code points, since a unicode escape can denote any of them; a \<open>dict\<close>
  is an association list in insertion order with distinct keys.
\<close>

datatype exn = JSONDecodeError | RecursionError | ValueError | TypeError | Exception string

type_synonym ustr = "nat list"

definition ustr_of :: "string \<Rightarrow> ustr" where
  "ustr_of s = map of_char s"

datatype json =
    JNull
  | JBool bool
  | JInt int
  | JFloat string
  | JString ustr
  | JArray "json list"
  | JObject "(ustr \<times> json) list"

section \<open>\<open>json.loads\<close>\<close>

text \<open>
  The decoder of the Python standard library (the scanner, \<open>scanstring\<close>, \<open>JSONObject\<close>,
  \<open>JSONArray\<close> and \<open>JSONDecoder.decode\<close>) with its default settings. Every error it reports
  itself is a \<open>JSONDecodeError\<close>. Two other exceptions escape from it: a \<open>RecursionError\<close>
  when objects and arrays are nested deeper than the interpreter allows, and a
  \<open>ValueError\<close> when an integer literal has more digits than \<open>sys.int_max_str_digits\<close>
  (0 switches that limit off). Both limits are parameters: \<open>d\<close> is the number of nested
  containers the interpreter still allows, \<open>md\<close> the digit limit.
\<close>

definition json_ws :: "char \<Rightarrow> bool" where
  "json_ws c = (c = CHR 0x20 \<or> c = CHR 0x09 \<or> c = CHR 0x0A \<or> c = CHR 0x0D)"

abbreviation skip_ws :: "string \<Rightarrow> string" where
  "skip_ws \<equiv> dropWhile json_ws"

definition is_digit :: "char \<Rightarrow> bool" where
  "is_digit c = (let n = (of_char c :: nat) in 48 \<le> n \<and> n \<le> 57)"

definition hex_val :: "char \<Rightarrow> nat option" where
  "hex_val c = (let n = (of_char c :: nat) in
     if 48 \<le> n \<and> n \<le> 57 then Some (n - 48)
     else if 97 \<le> n \<and> n \<le> 102 then Some (n - 87)
     else if 65 \<le> n \<and> n \<le> 70 then Some (n - 55)
     else None)"

definition decode_uXXXX :: "string \<Rightarrow> nat option" where
  "decode_uXXXX s = (case s of
     a # b # c # d # _ \<Rightarrow>
       (case (hex_val a, hex_val b, hex_val c, hex_val d) of
          (Some w, Some x, Some y, Some z) \<Rightarrow> Some (((w * 16 + x) * 16 + y) * 16 + z)
        | _ \<Rightarrow> None)
   | _ \<Rightarrow> None)"

definition backslash :: "char \<Rightarrow> nat option" where
  "backslash c =
    (if c = CHR 0x22 then Some 0x22
     else if c = CHR 0x5C then Some 0x5C
     else if c = CHR ''/'' then Some 0x2F
     else if c = CHR ''b'' then Some 8
     else if c = CHR ''f'' then Some 12
     else if c = CHR ''n'' then Some 10
     else if c = CHR ''r'' then Some 13
     else if c = CHR ''t'' then Some 9
     else None)"

text \<open>The text after a backslash inside a string: the decoded code point and the rest.
  A high surrogate followed by an escaped low surrogate is one code point.\<close>

definition scan_escape :: "string \<Rightarrow> (nat \<times> string) option" where
  "scan_escape s = (case s of
     [] \<Rightarrow> None
   | e # es \<Rightarrow>
       if e = CHR ''u'' then
         (case decode_uXXXX es of
            None \<Rightarrow> None
          | Some uni \<Rightarrow>
              let r = drop 4 es in
              if 0xD800 \<le> uni \<and> uni \<le> 0xDBFF \<and> take 2 r = [CHR 0x5C, CHR ''u''] then
                (case decode_uXXXX (drop 2 r) of
                   None \<Rightarrow> None
                 | Some uni2 \<Rightarrow>
                     if 0xDC00 \<le> uni2 \<and> uni2 \<le> 0xDFFF
                     then Some (0x10000 + ((uni - 0xD800) * 1024 + (uni2 - 0xDC00)), drop 6 r)
                     else Some (uni, r))
              else Some (uni, r))
       else map_option (\<lambda>ch. (ch, es)) (backslash e))"

function scanstring :: "string \<Rightarrow> ustr \<Rightarrow> exn + (ustr \<times> string)" where
  "scanstring [] acc = Inl JSONDecodeError"
| "scanstring (c # cs) acc =
    (if c = CHR 0x22 then Inr (acc, cs)
     else if c = CHR 0x5C then
       (case scan_escape cs of
          None \<Rightarrow> Inl JSONDecodeError
        | Some (ch, r) \<Rightarrow> scanstring r (acc @ [ch]))
     else if (of_char c :: nat) < 0x20 then Inl JSONDecodeError
     else scanstring cs (acc @ [of_char c]))"
  by pat_completeness auto
termination
proof -
  have esc: "length r < length s" if "scan_escape s = Some (ch, r)" for s ch r
    using that unfolding scan_escape_def
    by (cases s) (auto split: if_splits option.splits simp: Let_def)
  show ?thesis
    by (relation "measure (\<lambda>(s, acc). length s)") (auto dest: esc)
qed

text \<open>Numbers: an optional minus sign and \<open>0\<close> or a run of digits that does not start
  with \<open>0\<close>; then, optionally, a point and at least one digit; then, optionally, \<open>e\<close> or
  \<open>E\<close>, an optional sign and at least one digit. With a fraction or an exponent the
  number is a float, otherwise an int.\<close>

fun int_of_digits :: "string \<Rightarrow> int \<Rightarrow> int" where
  "int_of_digits [] a = a"
| "int_of_digits (c # cs) a = int_of_digits cs (a * 10 + (int (of_char c) - 48))"

definition parse_int :: "nat \<Rightarrow> string \<Rightarrow> exn + json" where
  "parse_int md i =
    (let neg = (take 1 i = ''-'');
         ds = (if neg then drop 1 i else i) in
     if 0 < md \<and> md < length ds then Inl ValueError
     else Inr (JInt (if neg then - int_of_digits ds 0 else int_of_digits ds 0)))"

definition match_exp :: "string \<Rightarrow> string \<times> string" where
  "match_exp r = (case r of
     [] \<Rightarrow> ([], r)
   | c # cs \<Rightarrow>
       if c = CHR ''e'' \<or> c = CHR ''E'' then
         (let sg = (if take 1 cs = ''-'' \<or> take 1 cs = ''+'' then take 1 cs else []);
              ds = takeWhile is_digit (drop (length sg) cs) in
          if ds = [] then ([], r)
          else (c # sg @ ds, dropWhile is_digit (drop (length sg) cs)))
       else ([], r))"

definition match_frac :: "string \<Rightarrow> string \<times> string" where
  "match_frac r = (case r of
     [] \<Rightarrow> ([], r)
   | c # cs \<Rightarrow>
       if c = CHR ''.'' \<and> takeWhile is_digit cs \<noteq> []
       then (c # takeWhile is_digit cs, dropWhile is_digit cs)
       else ([], r))"

definition match_number :: "string \<Rightarrow> (string \<times> string \<times> string \<times> string) option" where
  "match_number s =
    (let sg = (if take 1 s = ''-'' then ''-'' else []);
         s1 = drop (length sg) s in
     case s1 of
       [] \<Rightarrow> None
     | c # cs \<Rightarrow>
         if is_digit c then
           (let ds = (if c = CHR ''0'' then [] else takeWhile is_digit cs);
                (frac, r1) = match_frac (drop (length ds) cs);
                (ex, r2) = match_exp r1 in
            Some (sg @ c # ds, frac, ex, r2))
         else None)"



definition scan_scalar :: "nat \<Rightarrow> string \<Rightarrow> exn + (json \<times> string)" where
  "scan_scalar md s =
    (if take 1 s = [CHR 0x22] then
       (case scanstring (drop 1 s) [] of Inl e \<Rightarrow> Inl e | Inr (u, r) \<Rightarrow> Inr (JString u, r))
     else if prefix ''null'' s then Inr (JNull, drop 4 s)
     else if prefix ''true'' s then Inr (JBool True, drop 4 s)
     else if prefix ''false'' s then Inr (JBool False, drop 5 s)
     else if prefix ''NaN'' s then Inr (JFloat ''NaN'', drop 3 s)
     else if prefix ''Infinity'' s then Inr (JFloat ''Infinity'', drop 8 s)
     else if prefix ''-Infinity'' s then Inr (JFloat ''-Infinity'', drop 9 s)
     else
       (case match_number s of
          None \<Rightarrow> Inl JSONDecodeError
        | Some (i, frac, ex, r) \<Rightarrow>
            if frac \<noteq> [] \<or> ex \<noteq> [] then Inr (JFloat (i @ frac @ ex), r)
            else (case parse_int md i of Inl e \<Rightarrow> Inl e | Inr v \<Rightarrow> Inr (v, r))))"

definition next_delim :: "char \<Rightarrow> string \<Rightarrow> exn + (bool \<times> string)" where
  "next_delim close r = (case skip_ws r of
     [] \<Rightarrow> Inl JSONDecodeError
   | c # r' \<Rightarrow>
       if c = close then Inr (True, r')
       else if c = CHR '','' then Inr (False, r')
       else Inl JSONDecodeError)"

definition expect :: "char \<Rightarrow> string \<Rightarrow> exn + string" where
  "expect c s = (case s of [] \<Rightarrow> Inl JSONDecodeError
     | x # r \<Rightarrow> if x = c then Inr r else Inl JSONDecodeError)"

definition scan_key :: "string \<Rightarrow> exn + (ustr \<times> string)" where
  "scan_key s = (case scanstring s [] of
     Inl e \<Rightarrow> Inl e
   | Inr (key, r) \<Rightarrow>
       (case expect (CHR '':'') (skip_ws r) of
          Inl e \<Rightarrow> Inl e
        | Inr r1 \<Rightarrow> Inr (key, skip_ws r1)))"

definition call_depth ::
  "(nat \<times> nat \<times> string + nat \<times> nat \<times> string) +
   nat \<times> nat \<times> string \<times> json list +
   nat \<times> nat \<times> string +
   nat \<times> nat \<times> string \<times> (ustr \<times> json) list \<Rightarrow> nat" where
  "call_depth x = (case x of
      Inl (Inl (md, d, s)) \<Rightarrow> d
    | Inl (Inr (md, d, s)) \<Rightarrow> d
    | Inr (Inl (md, d, s, acc)) \<Rightarrow> d
    | Inr (Inr (Inl (md, d, s))) \<Rightarrow> d
    | Inr (Inr (Inr (md, d, s, acc))) \<Rightarrow> d)"

definition call_input ::
  "(nat \<times> nat \<times> string + nat \<times> nat \<times> string) +
   nat \<times> nat \<times> string \<times> json list +
   nat \<times> nat \<times> string +
   nat \<times> nat \<times> string \<times> (ustr \<times> json) list \<Rightarrow> nat" where
  "call_input x = (case x of
      Inl (Inl (md, d, s)) \<Rightarrow> length s
    | Inl (Inr (md, d, s)) \<Rightarrow> length s
    | Inr (Inl (md, d, s, acc)) \<Rightarrow> length s
    | Inr (Inr (Inl (md, d, s))) \<Rightarrow> length s
    | Inr (Inr (Inr (md, d, s, acc))) \<Rightarrow> length s)"

definition call_rank ::
  "(nat \<times> nat \<times> string + nat \<times> nat \<times> string) +
   nat \<times> nat \<times> string \<times> json list +
   nat \<times> nat \<times> string +
   nat \<times> nat \<times> string \<times> (ustr \<times> json) list \<Rightarrow> nat" where
  "call_rank x = (case x of
      Inl (Inl (md, d, s)) \<Rightarrow> 0
    | Inl (Inr (md, d, s)) \<Rightarrow> 2
    | Inr (Inl (md, d, s, acc)) \<Rightarrow> 1
    | Inr (Inr (Inl (md, d, s))) \<Rightarrow> 2
    | Inr (Inr (Inr (md, d, s, acc))) \<Rightarrow> 1)"

text \<open>
  The recursive part of the scanner. Entering an object or an array uses up one level of
  \<open>d\<close>. The two loops, over the items of an array and the pairs of an object, go on with
  what is left of the input after an item; the test that the input got shorter always
  succeeds (lemmas \<open>array_items_loop\<close> and \<open>object_items_loop\<close> below) and is there for the
  termination proof only.
\<close>

function scan_once :: "nat \<Rightarrow> nat \<Rightarrow> string \<Rightarrow> exn + (json \<times> string)"
and parse_array :: "nat \<Rightarrow> nat \<Rightarrow> string \<Rightarrow> exn + (json \<times> string)"
and array_items :: "nat \<Rightarrow> nat \<Rightarrow> string \<Rightarrow> json list \<Rightarrow> exn + (json \<times> string)"
and parse_object :: "nat \<Rightarrow> nat \<Rightarrow> string \<Rightarrow> exn + (json \<times> string)"
and object_items :: "nat \<Rightarrow> nat \<Rightarrow> string \<Rightarrow> (ustr \<times> json) list \<Rightarrow> exn + (json \<times> string)"
where
  "scan_once md d s =
    (if take 1 s = ''{'' then
       (case d of 0 \<Rightarrow> Inl RecursionError | Suc d' \<Rightarrow> parse_object md d' (drop 1 s))
     else if take 1 s = ''['' then
       (case d of 0 \<Rightarrow> Inl RecursionError | Suc d' \<Rightarrow> parse_array md d' (drop 1 s))
     else scan_scalar md s)"
| "parse_array md d s =
    (if take 1 (skip_ws s) = '']'' then Inr (JArray [], drop 1 (skip_ws s))
     else array_items md d (skip_ws s) [])"
| "array_items md d s acc =
    (case scan_once md d s of
       Inl e \<Rightarrow> Inl e
     | Inr (v, r) \<Rightarrow>
         (case next_delim (CHR '']'') r of
            Inl e \<Rightarrow> Inl e
          | Inr (closed, r') \<Rightarrow>
              if closed then Inr (JArray (acc @ [v]), r')
              else if length r' < length s
              then array_items md d (skip_ws r') (acc @ [v])
              else Inl JSONDecodeError))"
| "parse_object md d s =
    (if take 1 (skip_ws s) = ''}'' then Inr (JObject [], drop 1 (skip_ws s))
     else (case expect (CHR 0x22) (skip_ws s) of
             Inl e \<Rightarrow> Inl e
           | Inr r \<Rightarrow> object_items md d r []))"
| "object_items md d s acc =
    (case scan_key s of
       Inl e \<Rightarrow> Inl e
     | Inr (key, r) \<Rightarrow>
         (case scan_once md d r of
            Inl e \<Rightarrow> Inl e
          | Inr (v, r2) \<Rightarrow>
              (case next_delim (CHR ''}'') r2 of
                 Inl e \<Rightarrow> Inl e
               | Inr (closed, r3) \<Rightarrow>
                   if closed then Inr (JObject (AList.update key v acc), r3)
                   else (case expect (CHR 0x22) (skip_ws r3) of
                           Inl e \<Rightarrow> Inl e
                         | Inr r4 \<Rightarrow>
                             if length r4 < length s
                             then object_items md d r4 (AList.update key v acc)
                             else Inl JSONDecodeError))))"
  by pat_completeness auto

termination
proof -
  have esc: "length r < length s" if "scan_escape s = Some (ch, r)" for s ch r
    using that unfolding scan_escape_def
    by (cases s) (auto split: if_splits option.splits simp: Let_def)
  have str: "length r < length s" if "scanstring s acc = Inr (u, r)" for s acc u r
    using that
  proof (induction s acc rule: scanstring.induct)
    case (1 acc)
    then show ?case by simp
  next
    case (2 c cs acc)
    show ?case
    proof (cases "c = CHR 0x22")
      case True
      with 2 show ?thesis by simp
    next
      case nq: False
      show ?thesis
      proof (cases "c = CHR 0x5C")
        case True
        with nq 2(3) obtain ch r' where e: "scan_escape cs = Some (ch, r')"
          and s: "scanstring r' (acc @ [ch]) = Inr (u, r)"
          by (auto split: option.splits)
        from 2(1)[OF nq True e refl s] esc[OF e] show ?thesis by simp
      next
        case False
        with nq 2(3) have c: "\<not> (of_char c :: nat) < 0x20"
          and s: "scanstring cs (acc @ [of_char c]) = Inr (u, r)"
          by (auto split: if_splits)
        from 2(2)[OF nq False c s] show ?thesis by simp
      qed
    qed
  qed
  have ws: "length (skip_ws s) \<le> length s" for s
    by (rule length_dropWhile_le)
  have exp: "length r < length s" if "expect c s = Inr r" for c s r
    using that by (auto simp: expect_def split: list.splits if_splits)
  have key: "length r < length s" if "scan_key s = Inr (k, r)" for s k r
  proof -
    from that obtain r0 r1 where a: "scanstring s [] = Inr (k, r0)"
      and b: "expect (CHR '':'') (skip_ws r0) = Inr r1" and c: "r = skip_ws r1"
      by (auto simp: scan_key_def split: sum.splits)
    from str[OF a] exp[OF b] ws[of r0] ws[of r1] c show ?thesis by simp
  qed
  note measures = mlex_prod_def call_depth_def call_input_def call_rank_def
  show ?thesis
  proof (relation "call_depth <*mlex*> call_input <*mlex*> call_rank <*mlex*> {}", goal_cases)
    case 1
    show ?case by (simp add: wf_mlex)
  next
    case 2
    then show ?case by (simp add: measures)
  next
    case 3
    then show ?case by (simp add: measures)
  next
    case (4 md d s)
    from ws[of s] show ?case by (auto simp: measures)
  next
    case 5
    then show ?case by (simp add: measures)
  next
    case (6 md d s acc b v r b' closed r')
    from 6 ws[of r'] show ?case by (auto simp: measures)
  next
    case (7 md d s r)
    from exp[OF 7(2)] ws[of s] show ?case by (auto simp: measures)
  next
    case (8 md d s acc b k r)
    then have "scan_key s = Inr (k, r)" by simp
    from key[OF this] show ?case by (auto simp: measures)
  next
    case 9
    then show ?case by (auto simp: measures)
  qed
qed

declare scan_once.simps [simp del] parse_array.simps [simp del] array_items.simps [simp del]
  parse_object.simps [simp del] object_items.simps [simp del]

definition json_loads :: "nat \<Rightarrow> nat \<Rightarrow> string \<Rightarrow> exn + json" where
  "json_loads md d s =
    (case scan_once md d (skip_ws s) of
       Inl e \<Rightarrow> Inl e
     | Inr (v, r) \<Rightarrow> if skip_ws r = [] then Inr v else Inl JSONDecodeError)"


section \<open>\<open>re.search\<close>\<close>

text \<open>
  The fragment of Python's regular expressions that the three patterns use: literals,
  character classes, sequence, greedy and lazy repetition, and one capturing group.
  \<open>matches p st\<close> lists the states after every way \<open>p\<close> can match at the front of the
  input, in the order in which the backtracking matcher tries them; a state is the rest
  of the input with the text of group 1, when the group has matched. A repetition only
  goes on after a step that has consumed input, and is bounded by the length of the input.
\<close>

datatype rx =
    Lit string
  | Cls "char \<Rightarrow> bool"
  | Seq rx rx
  | Star rx
  | LazyStar rx
  | Group rx

type_synonym mstate = "string \<times> string option"

fun star_greedy :: "(mstate \<Rightarrow> mstate list) \<Rightarrow> nat \<Rightarrow> mstate \<Rightarrow> mstate list" where
  "star_greedy f 0 st = [st]"
| "star_greedy f (Suc n) st =
     concat (map (star_greedy f n) (filter (\<lambda>st'. length (fst st') < length (fst st)) (f st)))
     @ [st]"

fun star_lazy :: "(mstate \<Rightarrow> mstate list) \<Rightarrow> nat \<Rightarrow> mstate \<Rightarrow> mstate list" where
  "star_lazy f 0 st = [st]"
| "star_lazy f (Suc n) st =
     st # concat (map (star_lazy f n) (filter (\<lambda>st'. length (fst st') < length (fst st)) (f st)))"

primrec matches :: "rx \<Rightarrow> mstate \<Rightarrow> mstate list" where
  "matches (Lit l) st =
     (if prefix l (fst st) then [(drop (length l) (fst st), snd st)] else [])"
| "matches (Cls P) st =
     (case fst st of [] \<Rightarrow> [] | c # cs \<Rightarrow> if P c then [(cs, snd st)] else [])"
| "matches (Seq a b) st = concat (map (matches b) (matches a st))"
| "matches (Star a) st = star_greedy (matches a) (length (fst st)) st"
| "matches (LazyStar a) st = star_lazy (matches a) (length (fst st)) st"
| "matches (Group a) st =
     map (\<lambda>st'. (fst st', Some (take (length (fst st) - length (fst st')) (fst st))))
       (matches a st)"

fun re_search :: "rx \<Rightarrow> string \<Rightarrow> string option option" where
  "re_search p [] = (case matches p ([], None) of [] \<Rightarrow> None | st # _ \<Rightarrow> Some (snd st))"
| "re_search p (c # cs) =
     (case matches p (c # cs, None) of [] \<Rightarrow> re_search p cs | st # _ \<Rightarrow> Some (snd st))"

definition seqs :: "rx list \<Rightarrow> rx" where
  "seqs rs = foldr Seq rs (Lit [])"

definition ws :: rx where "ws = Cls isspace"
definition anychar :: rx where "anychar = Cls (\<lambda>c. True)"
definition not_brace :: rx where "not_brace = Cls (\<lambda>c. c \<noteq> CHR ''{'' \<and> c \<noteq> CHR ''}'')"

definition pattern1 :: rx where
  "pattern1 = seqs [Lit ''```json'', Star ws,
      Group (seqs [Lit ''{'', LazyStar anychar, Lit ''}'']), Star ws, Lit ''```'']"

definition pattern2 :: rx where
  "pattern2 = seqs [Lit ''```'', Star ws,
      Group (seqs [Lit ''{'', LazyStar anychar, Lit ''}'']), Star ws, Lit ''```'']"

definition pattern3 :: rx where
  "pattern3 = Group (seqs [Lit ''{'', Star not_brace,
      Star (seqs [Lit ''{'', Star not_brace, Lit ''}'', Star not_brace]), Lit ''}''])"

section \<open>Output recovery\<close>

text \<open>The three patterns of \<open>json_patterns\<close>, in the order of the list.\<close>

definition json_patterns :: "rx list" where
  "json_patterns = [pattern1, pattern2, pattern3]"

text \<open>The synthetic record of the last branch.\<close>

definition fallback :: "string \<Rightarrow> json" where
  "fallback text = JObject
    [(ustr_of ''summary'', JString (ustr_of ''Analysis completed. Check logs for full details.'')),
     (ustr_of ''financial_trends'', JArray
        [JObject
          [(ustr_of ''metric'', JString (ustr_of ''General Analysis'')),
           (ustr_of ''trend'', JString (ustr_of ''stable'')),
           (ustr_of ''percentage_change'', JFloat ''0.0''),
           (ustr_of ''analysis'',
              JString (ustr_of (if length text > 200 then take 200 text else text)))]]),
     (ustr_of ''management_outlook'', JObject
        [(ustr_of ''sentiment'', JString (ustr_of ''neutral'')),
         (ustr_of ''key_statements'', JArray [JString (ustr_of ''See raw output for details'')]),
         (ustr_of ''strategic_focus'', JArray [JString (ustr_of ''Multiple areas'')])]),
     (ustr_of ''risks_and_opportunities'', JArray
        [JObject
          [(ustr_of ''type'', JString (ustr_of ''opportunity'')),
           (ustr_of ''description'', JString (ustr_of ''Analysis in progress'')),
           (ustr_of ''potential_impact'', JString (ustr_of ''medium''))]]),
     (ustr_of ''quarterly_forecast'',
        JString (ustr_of (if length text > 500 then take 500 text else text))),
     (ustr_of ''confidence_level'', JString (ustr_of ''medium'')),
     (ustr_of ''data_sources_used'', JArray [JString (ustr_of ''analysis_tools'')])]"

text \<open>\<open>json.loads(match.group(1))\<close>: a group that did not take part in the match is
  \<open>None\<close>, which \<open>json.loads\<close> refuses with a \<open>TypeError\<close>.\<close>

definition loads_group :: "nat \<Rightarrow> nat \<Rightarrow> string option \<Rightarrow> exn + json" where
  "loads_group md d g = (case g of None \<Rightarrow> Inl TypeError | Some s \<Rightarrow> json_loads md d s)"

text \<open>The loop over the patterns: the first pattern that matches and whose group parses
  decides; the bare \<open>except\<close> goes on to the next pattern after any exception.\<close>

fun try_patterns :: "nat \<Rightarrow> nat \<Rightarrow> rx list \<Rightarrow> string \<Rightarrow> json option" where
  "try_patterns md d [] text = None"
| "try_patterns md d (pattern # ps) text =
    (case re_search pattern text of
       None \<Rightarrow> try_patterns md d ps text
     | Some g \<Rightarrow>
         (case loads_group md d g of
            Inr v \<Rightarrow> Some v
          | Inl e \<Rightarrow> try_patterns md d ps text))"

text \<open>The last resort: from the first opening to the last closing brace.\<close>

definition outer_braces :: "nat \<Rightarrow> nat \<Rightarrow> string \<Rightarrow> json option" where
  "outer_braces md d text =
    (let start = str_find text (CHR ''{'');
         end = str_rfind text (CHR ''}'') in
     if start \<noteq> -1 \<and> end \<noteq> -1 then
       (case json_loads md d (slice text start (end + 1)) of
          Inr v \<Rightarrow> Some v
        | Inl e \<Rightarrow> None)
     else None)"

text \<open>\<open>_extract_json\<close>. The first \<open>try\<close> catches \<open>json.JSONDecodeError\<close> only: any other
  exception of the direct parse leaves the function.\<close>

definition extract_json :: "nat \<Rightarrow> nat \<Rightarrow> string \<Rightarrow> exn + json" where
  "extract_json md d text =
    (case json_loads md d (strip text) of
       Inr v \<Rightarrow> Inr v
     | Inl e \<Rightarrow>
         if e = JSONDecodeError then
           (case try_patterns md d json_patterns text of
              Some v \<Rightarrow> Inr v
            | None \<Rightarrow>
                (case outer_braces md d text of
                   Some v \<Rightarrow> Inr v
                 | None \<Rightarrow> Inr (fallback text)))
         else Inl e)"

section \<open>The orchestrator\<close>

text \<open>
  The collaborators of \<open>generate_forecast\<close> are parameters. A tool adapter either returns
  its text (\<open>Inr\<close>) or raises an \<open>Exception\<close> \<open>e\<close>, of which the orchestrator uses \<open>str(e)\<close>
  only (\<open>Inl\<close> of that text). The model call, from \<open>self.llm.invoke\<close> to the text taken
  from the response, either returns the text or raises.
\<close>

record collaborators =
  reports_dir :: string
  extract_financial_data :: "string \<Rightarrow> string + string"
  analyze_transcripts :: "string \<Rightarrow> string + string"
  fetch_market_data :: "string \<Rightarrow> string + string"
  llm_invoke :: "string \<Rightarrow> exn + string"
  int_max_str_digits :: nat
  recursion_limit :: nat

record forecast_result =
  forecast :: json
  tools_used :: "string list"
  raw_output :: string

text \<open>The two lists that the steps append to.\<close>

record progress =
  used :: "string list"
  tool_outputs :: "string list"

definition newline :: string where
  "newline = [CHR 0x0A]"

definition step_financial :: "collaborators \<Rightarrow> progress \<Rightarrow> progress" where
  "step_financial c p =
    (case extract_financial_data c (reports_dir c) of
       Inr financial_data \<Rightarrow>
         \<lparr>used = used p @ [''financial_data_extractor''],
          tool_outputs = tool_outputs p @ [''Financial Data:'' @ newline @ financial_data]\<rparr>
     | Inl e \<Rightarrow>
         p\<lparr>tool_outputs := tool_outputs p @ [''Financial Data: Not available - '' @ e]\<rparr>)"

definition step_transcripts :: "collaborators \<Rightarrow> string \<Rightarrow> progress \<Rightarrow> progress" where
  "step_transcripts c task p =
    (let transcript_query = extract_transcript_query task in
     case analyze_transcripts c transcript_query of
       Inr transcript_analysis \<Rightarrow>
         \<lparr>used = used p @ [''qualitative_analysis''],
          tool_outputs =
            tool_outputs p @ [''Transcript Analysis:'' @ newline @ transcript_analysis]\<rparr>
     | Inl e \<Rightarrow>
         p\<lparr>tool_outputs := tool_outputs p @ [''Transcript Analysis: Not available - '' @ e]\<rparr>)"

definition step_market :: "collaborators \<Rightarrow> progress \<Rightarrow> progress" where
  "step_market c p =
    (case fetch_market_data c ''TCS.NS'' of
       Inr market_data \<Rightarrow>
         \<lparr>used = used p @ [''market_data''],
          tool_outputs = tool_outputs p @ [''Market Data:'' @ newline @ market_data]\<rparr>
     | Inl e \<Rightarrow>
         p\<lparr>tool_outputs := tool_outputs p @ [''Market Data: Not available - '' @ e]\<rparr>)"

text \<open>\<open>json.dumps\<close> of a list of strings that need no escaping, as the three tool
  identifiers are.\<close>

definition json_dumps :: "string list \<Rightarrow> string" where
  "json_dumps xs = ''['' @ join '', '' (map (\<lambda>x. [CHR 0x22] @ x @ [CHR 0x22]) xs) @ '']''"

definition synthesis_prompt :: "string \<Rightarrow> string \<Rightarrow> string list \<Rightarrow> string" where
  \<open>synthesis_prompt task combined_data tools = join newline
    [''Based on the following data about TCS, generate a comprehensive forecast.'',
     [],
     ''Task: '' @ task,
     [],
     ''Available Data:'',
     combined_data,
     [],
     ''Generate a forecast as a JSON object with this exact structure:'',
     ''{'',
     ''    "summary": "2-3 sentence executive summary",'',
     ''    "financial_trends": ['',
     ''        {'',
     ''            "metric": "Revenue/Profit/Margin",'',
     ''            "trend": "increasing/decreasing/stable",'',
     ''            "percentage_change": 5.2,'',
     ''            "analysis": "Brief explanation"'',
     ''        }'',
     ''    ],'',
     ''    "management_outlook": {'',
     ''        "sentiment": "positive/negative/neutral",'',
     ''        "key_statements": ["statement1", "statement2"],'',
     ''        "strategic_focus": ["focus1", "focus2"]'',
     ''    },'',
     ''    "risks_and_opportunities": ['',
     ''        {'',
     ''            "type": "risk" or "opportunity",'',
     ''            "description": "Clear description",'',
     ''            "potential_impact": "high/medium/low"'',
     ''        }'',
     ''    ],'',
     ''    "quarterly_forecast": "Detailed forecast for next quarter",'',
     ''    "confidence_level": "high/medium/low",'',
     ''    "data_sources_used": '' @ json_dumps tools,
     ''}'',
     [],
     ''Return ONLY the JSON object, no other text.'']\<close>

text \<open>\<open>generate_forecast\<close>: the three tool steps in their order, then the prompt, the one
  model call and the recovery of the forecast. The outer \<open>except\<close> logs and raises the
  exception again.\<close>

definition run_tools :: "collaborators \<Rightarrow> string \<Rightarrow> progress" where
  "run_tools c task =
     step_market c (step_transcripts c task (step_financial c \<lparr>used = [], tool_outputs = []\<rparr>))"

definition generate_forecast :: "collaborators \<Rightarrow> string \<Rightarrow> exn + forecast_result" where
  "generate_forecast c task =
    (let p = run_tools c task;
         combined_data = join (newline @ newline) (tool_outputs p) in
     case llm_invoke c (synthesis_prompt task combined_data (used p)) of
       Inl e \<Rightarrow> Inl e
     | Inr output_text \<Rightarrow>
         (case extract_json (int_max_str_digits c) (recursion_limit c) output_text of
            Inl e \<Rightarrow> Inl e
          | Inr forecast_json \<Rightarrow>
              Inr \<lparr>forecast = forecast_json, tools_used = used p, raw_output = output_text\<rparr>))"

section \<open>The shape of a forecast record\<close>

text \<open>The fields that the response schema \<open>ForecastOutput\<close> requires, and reading a
  field of a JSON object.\<close>

definition required_fields :: "string list" where
  "required_fields = [''summary'', ''financial_trends'', ''management_outlook'',
     ''risks_and_opportunities'', ''quarterly_forecast'', ''confidence_level'',
     ''data_sources_used'']"

definition has_required_fields :: "json \<Rightarrow> bool" where
  "has_required_fields v = (case v of
     JObject kvs \<Rightarrow> list_all (\<lambda>k. map_of kvs (ustr_of k) \<noteq> None) required_fields
   | _ \<Rightarrow> False)"


definition is_object :: "json \<Rightarrow> bool" where
  "is_object v = (case v of JObject kvs \<Rightarrow> True | _ \<Rightarrow> False)"

section \<open>Example inputs\<close>


text \<open>An example run: the tools deliver, and the model call raises.\<close>

definition model_call_fails :: collaborators where
  "model_call_fails =
    \<lparr>reports_dir = ''data/reports'',
     extract_financial_data = (\<lambda>path. Inr ''{}''),
     analyze_transcripts = (\<lambda>query. Inr ''{}''),
     fetch_market_data = (\<lambda>symbol. Inl ''timed out''),
     llm_invoke = (\<lambda>prompt. Inl (Exception ''connection refused'')),
     int_max_str_digits = 4300,
     recursion_limit = 1000\<rparr>"






section \<open>Notions used in the proofs\<close>

text \<open>What the matcher returns is cut from the text it was given.\<close>

definition cut_from :: "mstate \<Rightarrow> mstate \<Rightarrow> bool" where
  "cut_from st st' \<longleftrightarrow>
     suffix (fst st') (fst st) \<and>
     (snd st' = snd st \<or> (\<exists>t. snd st' = Some t \<and> sublist t (fst st)))"



text \<open>The lazy repetition of any character stops at every closing brace, the nearest
  first: \<open>closers s\<close> lists what follows each closing brace of \<open>s\<close>.\<close>

fun closers :: "string \<Rightarrow> string list" where
  "closers [] = []"
| "closers (c # cs) = (if c = CHR ''}'' then [cs] else []) @ closers cs"

section \<open>The scanner consumes its input\<close>

lemma scan_escape_shrinks: "scan_escape s = Some (ch, r) \<Longrightarrow> length r < length s"
  unfolding scan_escape_def
  by (cases s) (auto split: if_splits option.splits simp: Let_def)

lemma scanstring_shrinks: "scanstring s acc = Inr (u, r) \<Longrightarrow> length r < length s"
proof (induction s acc rule: scanstring.induct)
  case (1 acc)
  then show ?case by simp
next
  case (2 c cs acc)
  show ?case
  proof (cases "c = CHR 0x22")
    case True
    with 2 show ?thesis by simp
  next
    case nq: False
    show ?thesis
    proof (cases "c = CHR 0x5C")
      case True
      with nq 2(3) obtain ch r' where e: "scan_escape cs = Some (ch, r')"
        and s: "scanstring r' (acc @ [ch]) = Inr (u, r)"
        by (auto split: option.splits)
      from 2(1)[OF nq True e refl s] scan_escape_shrinks[OF e] show ?thesis by simp
    next
      case False
      with nq 2(3) have c: "\<not> (of_char c :: nat) < 0x20" and s: "scanstring cs (acc @ [of_char c]) = Inr (u, r)"
        by (auto split: if_splits)
      from 2(2)[OF nq False c s] show ?thesis by simp
    qed
  qed
qed

lemma expect_shrinks: "expect c s = Inr r \<Longrightarrow> length r < length s"
  by (auto simp: expect_def split: list.splits if_splits)

lemma length_skip_ws: "length (skip_ws s) \<le> length s"
  by (rule length_dropWhile_le)

lemma scan_key_shrinks: "scan_key s = Inr (k, r) \<Longrightarrow> length r < length s"
  unfolding scan_key_def
  apply (auto split: sum.splits dest!: scanstring_shrinks expect_shrinks)
  by (meson length_skip_ws le_less_trans less_trans order.strict_trans2)

lemma drop_Cons_shorter: "drop n s = c # cs \<Longrightarrow> length cs < length s"
proof -
  assume "drop n s = c # cs"
  then have "length (drop n s) = Suc (length cs)" by simp
  then show ?thesis by simp
qed

lemma dropWhile_drop_le: "length (dropWhile P (drop k cs)) \<le> Suc (length cs)"
proof -
  have "length (dropWhile P (drop k cs)) \<le> length (drop k cs)"
    by (rule length_dropWhile_le)
  then show ?thesis by simp
qed

lemma dropWhile_le_Suc: "length (dropWhile P cs) \<le> Suc (length cs)"
  using dropWhile_drop_le[of P 0 cs] by simp

lemma match_exp_shrinks: "match_exp r = (ex, r') \<Longrightarrow> length r' \<le> length r"
  by (cases r)
     (auto simp: match_exp_def Let_def dropWhile_le_Suc dropWhile_drop_le split: if_splits)

lemma match_frac_shrinks: "match_frac r = (fr, r') \<Longrightarrow> length r' \<le> length r"
  by (cases r) (auto simp: match_frac_def dropWhile_le_Suc split: if_splits)

lemma match_number_shrinks:
  assumes "match_number s = Some (i, fr, ex, r)"
  shows "length r < length s"
proof -
  define sg where "sg = (if take 1 s = ''-'' then ''-'' else [])"
  from assms obtain c cs where s1: "drop (length sg) s = c # cs"
    unfolding match_number_def Let_def sg_def[symmetric]
    by (cases "drop (length sg) s") simp_all
  define ds where "ds = (if c = CHR ''0'' then [] else takeWhile is_digit cs)"
  obtain fr' r1 where f: "match_frac (drop (length ds) cs) = (fr', r1)"
    by (cases "match_frac (drop (length ds) cs)")
  obtain ex' r2 where e: "match_exp r1 = (ex', r2)"
    by (cases "match_exp r1")
  from assms have "r = r2"
    unfolding match_number_def Let_def sg_def[symmetric]
    by (simp add: s1 ds_def[symmetric] f e split: if_splits)
  moreover from match_frac_shrinks[OF f] match_exp_shrinks[OF e]
  have "length r2 \<le> length cs" by simp
  moreover from s1 have "length cs < length s" by (rule drop_Cons_shorter)
  ultimately show ?thesis by simp
qed


lemma scan_scalar_shrinks:
  assumes "scan_scalar md s = Inr (v, r)"
  shows "length r < length s"
proof (cases "take 1 s = [CHR 0x22]")
  case True
  with assms obtain u where "scanstring (drop 1 s) [] = Inr (u, r)"
    by (auto simp: scan_scalar_def split: sum.splits)
  from scanstring_shrinks[OF this] show ?thesis by simp
next
  case False
  show ?thesis
  proof (cases "match_number s")
    case None
    with assms False show ?thesis
      by (auto simp: scan_scalar_def prefix_def split: if_splits)
  next
    case (Some m)
    obtain i fr ex r' where m: "m = (i, fr, ex, r')" by (cases m)
    from match_number_shrinks[OF Some[unfolded m]] have "length r' < length s" .
    with assms False Some m show ?thesis
      by (auto simp: scan_scalar_def prefix_def split: if_splits sum.splits)
  qed
qed

lemma next_delim_shrinks: "next_delim c r = Inr (closed, r') \<Longrightarrow> length r' < length r"
proof -
  assume a: "next_delim c r = Inr (closed, r')"
  then obtain x where "skip_ws r = x # r'"
    by (auto simp: next_delim_def split: list.splits if_splits)
  then have "length r' < length (skip_ws r)" by simp
  with length_skip_ws[of r] show ?thesis by simp
qed


lemma take1_nonempty: "take 1 s = [c] \<Longrightarrow> length (drop 1 s) < length s"
  by (cases s) simp_all

lemma scanner_shrinks:
  "\<forall>v r. scan_once md d s = Inr (v, r) \<longrightarrow> length r < length s"
  "\<forall>v r. parse_array md d s = Inr (v, r) \<longrightarrow> length r \<le> length s"
  "\<forall>v r. array_items md d s acc = Inr (v, r) \<longrightarrow> length r < length s"
  "\<forall>v r. parse_object md d s = Inr (v, r) \<longrightarrow> length r \<le> length s"
  "\<forall>v r. object_items md d s kvs = Inr (v, r) \<longrightarrow> length r < length s"
proof (induction md d s and md d s and md d s acc and md d s and md d s kvs
       rule: scan_once_parse_array_array_items_parse_object_object_items.induct)
  case (1 md d s)
  show ?case
  proof (intro allI impI)
    fix v r assume a: "scan_once md d s = Inr (v, r)"
    show "length r < length s"
    proof (cases "take 1 s = ''{''")
      case True
      with a obtain n where d: "d = Suc n" and p: "parse_object md n (drop 1 s) = Inr (v, r)"
        by (subst (asm) scan_once.simps) (auto split: nat.splits)
      from "1.IH"(1)[OF True d] p have "length r \<le> length (drop 1 s)" by blast
      with take1_nonempty[OF True] show ?thesis by simp
    next
      case nb: False
      show ?thesis
      proof (cases "take 1 s = ''[''")
        case True
        with a nb obtain n where d: "d = Suc n" and p: "parse_array md n (drop 1 s) = Inr (v, r)"
          by (subst (asm) scan_once.simps) (auto split: nat.splits)
        from "1.IH"(2)[OF nb True d] p have "length r \<le> length (drop 1 s)" by blast
        with take1_nonempty[OF True] show ?thesis by simp
      next
        case False
        with a nb have "scan_scalar md s = Inr (v, r)"
          by (subst (asm) scan_once.simps) simp
        then show ?thesis by (rule scan_scalar_shrinks)
      qed
    qed
  qed
next
  case (2 md d s)
  show ?case
  proof (intro allI impI)
    fix v r assume a: "parse_array md d s = Inr (v, r)"
    show "length r \<le> length s"
    proof (cases "take 1 (skip_ws s) = '']''")
      case True
      with a have "r = drop 1 (skip_ws s)"
        by (subst (asm) parse_array.simps) simp
      with length_skip_ws[of s] show ?thesis by simp
    next
      case False
      with a have "array_items md d (skip_ws s) [] = Inr (v, r)"
        by (subst (asm) parse_array.simps) simp
      with "2.IH"[OF False] have "length r < length (skip_ws s)" by blast
      with length_skip_ws[of s] show ?thesis by simp
    qed
  qed
next
  case (3 md d s acc)
  show ?case
  proof (intro allI impI)
    fix v r assume a: "array_items md d s acc = Inr (v, r)"
    from a obtain x y where so: "scan_once md d s = Inr (x, y)"
      by (subst (asm) array_items.simps) (auto split: sum.splits)
    with "3.IH"(1) have y: "length y < length s" by blast
    from a so obtain closed ya where nd: "next_delim (CHR '']'') y = Inr (closed, ya)"
      by (subst (asm) array_items.simps) (auto split: sum.splits)
    from next_delim_shrinks[OF nd] y have ya: "length ya < length s" by simp
    show "length r < length s"
    proof (cases closed)
      case True
      with a so nd have "r = ya"
        by (subst (asm) array_items.simps) simp
      with ya show ?thesis by simp
    next
      case False
      with a so nd ya have "array_items md d (skip_ws ya) (acc @ [x]) = Inr (v, r)"
        by (subst (asm) array_items.simps) simp
      with "3.IH"(2)[OF so refl nd refl False ya] have "length r < length (skip_ws ya)"
        by blast
      with length_skip_ws[of ya] ya show ?thesis by simp
    qed
  qed
next
  case (4 md d s)
  show ?case
  proof (intro allI impI)
    fix v r assume a: "parse_object md d s = Inr (v, r)"
    show "length r \<le> length s"
    proof (cases "take 1 (skip_ws s) = ''}''")
      case True
      with a have "r = drop 1 (skip_ws s)"
        by (subst (asm) parse_object.simps) simp
      with length_skip_ws[of s] show ?thesis by simp
    next
      case False
      with a obtain b where e: "expect (CHR 0x22) (skip_ws s) = Inr b"
        and o: "object_items md d b [] = Inr (v, r)"
        by (subst (asm) parse_object.simps) (auto split: sum.splits)
      from "4.IH"[OF False e] o have "length r < length b" by blast
      with expect_shrinks[OF e] length_skip_ws[of s] show ?thesis by simp
    qed
  qed
next
  case (5 md d s kvs)
  show ?case
  proof (intro allI impI)
    fix v r assume a: "object_items md d s kvs = Inr (v, r)"
    from a obtain k y where sk: "scan_key s = Inr (k, y)"
      by (subst (asm) object_items.simps) (auto split: sum.splits)
    from scan_key_shrinks[OF sk] have y: "length y < length s" .
    from a sk obtain x ya where so: "scan_once md d y = Inr (x, ya)"
      by (subst (asm) object_items.simps) (auto split: sum.splits)
    with "5.IH"(1)[OF sk refl] have "length ya < length y" by blast
    with y have ya: "length ya < length s" by simp
    from a sk so obtain closed yb where nd: "next_delim (CHR ''}'') ya = Inr (closed, yb)"
      by (subst (asm) object_items.simps) (auto split: sum.splits)
    from next_delim_shrinks[OF nd] ya have yb: "length yb < length s" by simp
    show "length r < length s"
    proof (cases closed)
      case True
      with a sk so nd have "r = yb"
        by (subst (asm) object_items.simps) simp
      with yb show ?thesis by simp
    next
      case False
      with a sk so nd obtain bc where e: "expect (CHR 0x22) (skip_ws yb) = Inr bc"
        by (subst (asm) object_items.simps) (auto split: sum.splits)
      from expect_shrinks[OF e] length_skip_ws[of yb] yb have bc: "length bc < length s"
        by simp
      with a sk so nd False e
      have "object_items md d bc (AList.update k x kvs) = Inr (v, r)"
        by (subst (asm) object_items.simps) simp
      with "5.IH"(2)[OF sk refl so refl nd refl False e bc] have "length r < length bc"
        by blast
      with bc show ?thesis by simp
    qed
  qed
qed


text \<open>So the tests in the two loops never fail: the loops are the ones of the decoder.\<close>

lemma array_items_loop:
  "array_items md d s acc =
    (case scan_once md d s of
       Inl e \<Rightarrow> Inl e
     | Inr (v, r) \<Rightarrow>
         (case next_delim (CHR '']'') r of
            Inl e \<Rightarrow> Inl e
          | Inr (closed, r') \<Rightarrow>
              if closed then Inr (JArray (acc @ [v]), r')
              else array_items md d (skip_ws r') (acc @ [v])))"
proof (cases "scan_once md d s")
  case (Inl e)
  then show ?thesis by (subst array_items.simps) simp
next
  case (Inr p)
  obtain v r where p: "p = (v, r)" by (cases p)
  from Inr p scanner_shrinks(1) have r: "length r < length s" by blast
  show ?thesis
  proof (cases "next_delim (CHR '']'') r")
    case (Inl e)
    with Inr p show ?thesis by (subst array_items.simps) simp
  next
    case nd: (Inr q)
    obtain closed r' where q: "q = (closed, r')" by (cases q)
    from next_delim_shrinks[OF nd[unfolded q]] r have "length r' < length s" by simp
    with Inr p nd q show ?thesis by (subst array_items.simps) simp
  qed
qed

lemma object_items_loop:
  "object_items md d s acc =
    (case scan_key s of
       Inl e \<Rightarrow> Inl e
     | Inr (key, r) \<Rightarrow>
         (case scan_once md d r of
            Inl e \<Rightarrow> Inl e
          | Inr (v, r2) \<Rightarrow>
              (case next_delim (CHR ''}'') r2 of
                 Inl e \<Rightarrow> Inl e
               | Inr (closed, r3) \<Rightarrow>
                   if closed then Inr (JObject (AList.update key v acc), r3)
                   else (case expect (CHR 0x22) (skip_ws r3) of
                           Inl e \<Rightarrow> Inl e
                         | Inr r4 \<Rightarrow> object_items md d r4 (AList.update key v acc)))))"
proof (cases "scan_key s")
  case (Inl e)
  then show ?thesis by (subst object_items.simps) simp
next
  case (Inr p)
  obtain key r where p: "p = (key, r)" by (cases p)
  from scan_key_shrinks[OF Inr[unfolded p]] have r: "length r < length s" .
  show ?thesis
  proof (cases "scan_once md d r")
    case (Inl e)
    with Inr p show ?thesis by (subst object_items.simps) simp
  next
    case so: (Inr q)
    obtain v r2 where q: "q = (v, r2)" by (cases q)
    from so q scanner_shrinks(1) have "length r2 < length r" by blast
    with r have r2: "length r2 < length s" by simp
    show ?thesis
    proof (cases "next_delim (CHR ''}'') r2")
      case (Inl e)
      with Inr p so q show ?thesis by (subst object_items.simps) simp
    next
      case nd: (Inr t)
      obtain closed r3 where t: "t = (closed, r3)" by (cases t)
      from next_delim_shrinks[OF nd[unfolded t]] r2 have r3: "length r3 < length s" by simp
      show ?thesis
      proof (cases "expect (CHR 0x22) (skip_ws r3)")
        case (Inl e)
        with Inr p so q nd t show ?thesis by (subst object_items.simps) simp
      next
        case ex: (Inr r4)
        from expect_shrinks[OF ex] length_skip_ws[of r3] r3 have "length r4 < length s"
          by simp
        with Inr p so q nd t ex show ?thesis by (subst object_items.simps) simp
      qed
    qed
  qed
qed

section \<open>Properties of the query selector\<close>

lemma str_contains_sublist: "str_contains sub s \<longleftrightarrow> sublist sub s"
  by (induction s) (auto simp: sublist_Cons_right)

text \<open>
  C7. The selector returns one of four fixed, different templates. It picks the template
  by what the lower-cased task contains as a contiguous run, in a fixed order: first
  \<open>ai\<close> or \<open>artificial intelligence\<close>, then \<open>outlook\<close> or \<open>forecast\<close>, then \<open>risk\<close>, else the
  generic template; the first rule that applies decides. For the task
  \<open>Analyze AI-driven growth outlook for TCS\<close> that is the AI template, although the task
  contains \<open>outlook\<close> as well.
\<close>

theorem selector_priority_order:
  "extract_transcript_query task =
     (if sublist ''ai'' (lower task) \<or> sublist ''artificial intelligence'' (lower task)
      then ''What is management's outlook on AI and digital transformation?''
      else if sublist ''outlook'' (lower task) \<or> sublist ''forecast'' (lower task)
      then ''What is management's forward-looking guidance and outlook?''
      else if sublist ''risk'' (lower task)
      then ''What risks and challenges did management discuss?''
      else ''What are the key themes and strategic focus areas discussed by management?'')
   \<and> extract_transcript_query task \<in> {query_ai, query_outlook, query_risk, query_generic}
   \<and> distinct [query_ai, query_outlook, query_risk, query_generic]
   \<and> sublist ''outlook'' (lower ''Analyze AI-driven growth outlook for TCS'')
   \<and> extract_transcript_query ''Analyze AI-driven growth outlook for TCS'' = query_ai"
proof -
  have chain: "extract_transcript_query task =
     (if sublist ''ai'' (lower task) \<or> sublist ''artificial intelligence'' (lower task)
      then query_ai
      else if sublist ''outlook'' (lower task) \<or> sublist ''forecast'' (lower task)
      then query_outlook
      else if sublist ''risk'' (lower task) then query_risk else query_generic)"
    by (simp add: extract_transcript_query_def Let_def str_contains_sublist)
  have range: "extract_transcript_query task \<in> {query_ai, query_outlook, query_risk, query_generic}"
    unfolding chain by simp
  have differ: "distinct [query_ai, query_outlook, query_risk, query_generic]"
    by (simp add: query_ai_def query_outlook_def query_risk_def query_generic_def)
  have "str_contains ''outlook'' (lower ''Analyze AI-driven growth outlook for TCS'')"
    by code_simp
  then have has_outlook: "sublist ''outlook'' (lower ''Analyze AI-driven growth outlook for TCS'')"
    by (simp only: str_contains_sublist)
  have scenario: "extract_transcript_query ''Analyze AI-driven growth outlook for TCS'' = query_ai"
    by code_simp
  from chain have "extract_transcript_query task =
     (if sublist ''ai'' (lower task) \<or> sublist ''artificial intelligence'' (lower task)
      then ''What is management's outlook on AI and digital transformation?''
      else if sublist ''outlook'' (lower task) \<or> sublist ''forecast'' (lower task)
      then ''What is management's forward-looking guidance and outlook?''
      else if sublist ''risk'' (lower task)
      then ''What risks and challenges did management discuss?''
      else ''What are the key themes and strategic focus areas discussed by management?'')"
    by (simp only: query_ai_def query_outlook_def query_risk_def query_generic_def)
  with range differ has_outlook scenario show ?thesis by blast
qed

text \<open>
  C8, as stated, fails: a task that contains \<open>outlook\<close> and also \<open>ai\<close> gets the AI template,
  not the forward-looking-guidance template.
\<close>

theorem outlook_template_counterexample:
  "sublist ''outlook'' (lower ''Analyze AI-driven growth outlook for TCS'')
   \<and> extract_transcript_query ''Analyze AI-driven growth outlook for TCS''
       \<noteq> ''What is management's forward-looking guidance and outlook?''"
proof -
  have "str_contains ''outlook'' (lower ''Analyze AI-driven growth outlook for TCS'')"
    by code_simp
  then have "sublist ''outlook'' (lower ''Analyze AI-driven growth outlook for TCS'')"
    by (simp only: str_contains_sublist)
  moreover have "extract_transcript_query ''Analyze AI-driven growth outlook for TCS''
       \<noteq> ''What is management's forward-looking guidance and outlook?''"
    by code_simp
  ultimately show ?thesis by blast
qed

text \<open>
  C8, amended. For every task that contains \<open>outlook\<close> (in any letter case) and contains
  neither \<open>ai\<close> nor \<open>artificial intelligence\<close>, the derived query is the
  forward-looking-guidance template, verbatim.
\<close>

theorem outlook_template_without_ai:
  assumes "sublist ''outlook'' (lower task)"
    and "\<not> sublist ''ai'' (lower task)"
    and "\<not> sublist ''artificial intelligence'' (lower task)"
  shows "extract_transcript_query task =
           ''What is management's forward-looking guidance and outlook?''"
  using assms
  by (simp add: extract_transcript_query_def Let_def str_contains_sublist query_outlook_def)

theorem outlook_template_without_ai_witness:
  "sublist ''outlook'' (lower ''Give the Q4 OUTLOOK for TCS'')
   \<and> \<not> sublist ''ai'' (lower ''Give the Q4 OUTLOOK for TCS'')
   \<and> \<not> sublist ''artificial intelligence'' (lower ''Give the Q4 OUTLOOK for TCS'')
   \<and> extract_transcript_query ''Give the Q4 OUTLOOK for TCS'' =
         ''What is management's forward-looking guidance and outlook?''"
proof -
  have a: "str_contains ''outlook'' (lower ''Give the Q4 OUTLOOK for TCS'')"
    by code_simp
  have b: "\<not> str_contains ''ai'' (lower ''Give the Q4 OUTLOOK for TCS'')"
    by code_simp
  have c: "\<not> str_contains ''artificial intelligence'' (lower ''Give the Q4 OUTLOOK for TCS'')"
    by code_simp
  note h = a [unfolded str_contains_sublist] b [unfolded str_contains_sublist]
    c [unfolded str_contains_sublist]
  from h outlook_template_without_ai [OF h] show ?thesis by blast
qed

section \<open>Properties of the orchestrator\<close>





text \<open>
  C9. An exception of the model call leaves \<open>generate_forecast\<close> as it is, and no result
  record is returned. (Building the prompt is string formatting of strings and cannot
  raise.)
\<close>

theorem synthesis_failure_propagates:
  assumes "llm_invoke c
             (synthesis_prompt task
                (join (newline @ newline) (tool_outputs (run_tools c task)))
                (used (run_tools c task))) = Inl e"
  shows "generate_forecast c task = Inl e"
  using assms by (simp add: generate_forecast_def Let_def)

theorem synthesis_failure_propagates_witness:
  "llm_invoke model_call_fails
     (synthesis_prompt ''Forecast Q4''
        (join (newline @ newline) (tool_outputs (run_tools model_call_fails ''Forecast Q4'')))
        (used (run_tools model_call_fails ''Forecast Q4''))) = Inl (Exception ''connection refused'')
   \<and> generate_forecast model_call_fails ''Forecast Q4'' = Inl (Exception ''connection refused'')"
proof -
  have h: "llm_invoke model_call_fails
     (synthesis_prompt ''Forecast Q4''
        (join (newline @ newline) (tool_outputs (run_tools model_call_fails ''Forecast Q4'')))
        (used (run_tools model_call_fails ''Forecast Q4''))) = Inl (Exception ''connection refused'')"
    by (simp add: model_call_fails_def)
  from h synthesis_failure_propagates [OF h] show ?thesis by blast
qed

section \<open>Properties of the output recovery\<close>

lemma ustr_of_eq_iff: "ustr_of a = ustr_of b \<longleftrightarrow> a = b"
  by (simp add: ustr_of_def inj_map_eq_map inj_on_def)

lemma fallback_has_required_fields: "has_required_fields (fallback T)"
  by (simp add: has_required_fields_def fallback_def required_fields_def ustr_of_eq_iff)




text \<open>
  C10. Whatever \<open>json.loads\<close> makes of the trimmed text is returned as it is, with no check
  of its shape: a value that is not an object is returned too, and it is not a forecast
  record.
\<close>

theorem direct_parse_is_not_validated:
  assumes "json_loads md d (strip T) = Inr v"
  shows "extract_json md d T = Inr v \<and> (\<not> is_object v \<longrightarrow> \<not> has_required_fields v)"
  using assms
  by (auto simp: extract_json_def is_object_def has_required_fields_def split: json.splits)

theorem direct_parse_is_not_validated_witness:
  "json_loads 4300 1000 (strip '' [1, null, 2.5] '') = Inr (JArray [JInt 1, JNull, JFloat ''2.5''])
   \<and> extract_json 4300 1000 '' [1, null, 2.5] '' = Inr (JArray [JInt 1, JNull, JFloat ''2.5''])
   \<and> \<not> is_object (JArray [JInt 1, JNull, JFloat ''2.5''])
   \<and> \<not> has_required_fields (JArray [JInt 1, JNull, JFloat ''2.5''])"
proof -
  have h: "json_loads 4300 1000 (strip '' [1, null, 2.5] '')
             = Inr (JArray [JInt 1, JNull, JFloat ''2.5''])"
    by code_simp
  have n: "\<not> is_object (JArray [JInt 1, JNull, JFloat ''2.5''])"
    by (simp add: is_object_def)
  from h n direct_parse_is_not_validated [OF h] show ?thesis by blast
qed

text \<open>A text of opening brackets only: nothing to trim, and one level too many.\<close>

lemma dropWhile_none: "\<forall>c\<in>set s. \<not> P c \<Longrightarrow> dropWhile P s = s"
  by (cases s) auto

lemma strip_no_space: "\<forall>c\<in>set s. \<not> isspace c \<Longrightarrow> strip s = s"
  by (simp add: strip_def dropWhile_none)

lemma scan_once_too_deep:
  "scan_once md d (replicate (Suc d) (CHR ''['')) = Inl RecursionError"
proof (induction d)
  case 0
  show ?case by (subst scan_once.simps) simp
next
  case (Suc d)
  have ws: "skip_ws (replicate (Suc d) (CHR ''['')) = replicate (Suc d) (CHR ''['')"
    by (simp add: json_ws_def)
  have "scan_once md (Suc d) (replicate (Suc (Suc d)) (CHR ''['')) =
          parse_array md d (replicate (Suc d) (CHR ''[''))"
    by (subst scan_once.simps) simp
  also have "\<dots> = array_items md d (replicate (Suc d) (CHR ''['')) []"
    by (subst parse_array.simps) (simp only: ws, simp)
  also have "\<dots> = Inl RecursionError"
    by (subst array_items.simps) (simp only: Suc.IH, simp)
  finally show ?case .
qed

text \<open>An integer literal with one digit more than the limit allows.\<close>

lemma is_digit_one: "is_digit (CHR ''1'')"
  by (simp add: is_digit_def)

lemma match_number_ones:
  "match_number (replicate (Suc n) (CHR ''1'')) = Some (replicate (Suc n) (CHR ''1''), [], [], [])"
proof -
  have t: "takeWhile is_digit (replicate n (CHR ''1'')) = replicate n (CHR ''1'')"
    by (simp add: is_digit_one)
  show ?thesis
    by (simp add: match_number_def Let_def is_digit_one t match_frac_def match_exp_def)
qed

lemma long_integer_raises:
  assumes "0 < md"
  shows "json_loads md d (replicate (Suc md) (CHR ''1'')) = Inl ValueError"
proof -
  have w: "skip_ws (replicate (Suc md) (CHR ''1'')) = replicate (Suc md) (CHR ''1'')"
    by (simp add: json_ws_def)
  have p: "parse_int md (replicate (Suc md) (CHR ''1'')) = Inl ValueError"
    using assms by (simp add: parse_int_def Let_def)
  have "scan_scalar md (replicate (Suc md) (CHR ''1'')) = Inl ValueError"
    by (simp add: scan_scalar_def match_number_ones p del: replicate.simps)
       (simp add: prefix_def)
  then have "scan_once md d (replicate (Suc md) (CHR ''1'')) = Inl ValueError"
    by (subst scan_once.simps) simp
  then show ?thesis
    unfolding json_loads_def w by simp
qed

lemma long_integer_escapes_recovery:
  assumes "0 < md"
  shows "extract_json md d (replicate (Suc md) (CHR ''1'')) = Inl ValueError"
proof -
  have "\<not> isspace (CHR ''1'')"
    by (simp add: isspace_def)
  then have s: "strip (replicate (Suc md) (CHR ''1'')) = replicate (Suc md) (CHR ''1'')"
    by (intro strip_no_space) simp
  from long_integer_raises[OF assms] show ?thesis
    unfolding extract_json_def s by simp
qed

text \<open>
  C2 does not hold of the code. The handler of the direct parse catches
  \<open>json.JSONDecodeError\<close> only, unlike the handlers of the later attempts, which catch
  everything. A text of opening brackets, one more than the interpreter allows containers
  to be nested, makes \<open>json.loads\<close> raise a \<open>RecursionError\<close>, and that exception leaves
  \<open>_extract_json\<close>. (So does the \<open>ValueError\<close> of an integer literal that is too long:
  lemma \<open>long_integer_escapes_recovery\<close>.)
\<close>

theorem deep_nesting_escapes_recovery:
  "extract_json md d (replicate (Suc d) (CHR ''['')) = Inl RecursionError"
proof -
  have "\<not> isspace (CHR ''['')"
    by (simp add: isspace_def)
  then have s: "strip (replicate (Suc d) (CHR ''['')) = replicate (Suc d) (CHR ''['')"
    by (intro strip_no_space) simp
  have w: "skip_ws (replicate (Suc d) (CHR ''['')) = replicate (Suc d) (CHR ''['')"
    by (simp add: json_ws_def)
  have "json_loads md d (replicate (Suc d) (CHR ''['')) = Inl RecursionError"
    unfolding json_loads_def w scan_once_too_deep by simp
  then show ?thesis
    unfolding extract_json_def s by simp
qed

text \<open>Every value that the recovery parses comes from a contiguous part of the text.\<close>

lemma cut_from_refl: "cut_from st st"
  by (simp add: cut_from_def)

lemma cut_from_trans:
  assumes "cut_from a b" and "cut_from b c"
  shows "cut_from a c"
proof -
  from assms have s: "suffix (fst c) (fst a)"
    by (auto simp: cut_from_def intro: suffix_order.trans)
  from assms have "suffix (fst b) (fst a)"
    by (simp add: cut_from_def)
  then have up: "\<And>t. sublist t (fst b) \<Longrightarrow> sublist t (fst a)"
    by (meson sublist_order.order_trans suffix_imp_sublist)
  from assms have "snd c = snd a \<or> (\<exists>t. snd c = Some t \<and> sublist t (fst a))"
    by (auto simp: cut_from_def dest: up)
  with s show ?thesis by (simp add: cut_from_def)
qed

lemma star_greedy_cut:
  assumes "\<And>st st'. st' \<in> set (f st) \<Longrightarrow> cut_from st st'"
  shows "st' \<in> set (star_greedy f n st) \<Longrightarrow> cut_from st st'"
proof (induction n arbitrary: st)
  case 0
  then show ?case by (simp add: cut_from_refl)
next
  case (Suc n)
  then show ?case
    by (auto simp: cut_from_refl intro: cut_from_trans assms)
qed

lemma star_lazy_cut:
  assumes "\<And>st st'. st' \<in> set (f st) \<Longrightarrow> cut_from st st'"
  shows "st' \<in> set (star_lazy f n st) \<Longrightarrow> cut_from st st'"
proof (induction n arbitrary: st)
  case 0
  then show ?case by (simp add: cut_from_refl)
next
  case (Suc n)
  then show ?case
    by (auto simp: cut_from_refl intro: cut_from_trans assms)
qed

lemma matches_cut: "st' \<in> set (matches p st) \<Longrightarrow> cut_from st st'"
proof (induction p arbitrary: st st')
  case (Lit l)
  then show ?case
    by (auto simp: cut_from_def suffix_drop split: if_splits)
next
  case (Cls P)
  then show ?case
    by (cases "fst st") (auto simp: cut_from_def suffix_def split: if_splits)
next
  case (Seq a b)
  from Seq.prems obtain st1 where "st1 \<in> set (matches a st)" and "st' \<in> set (matches b st1)"
    by auto
  then have "cut_from st st1" and "cut_from st1 st'"
    by (auto intro: Seq.IH)
  then show ?case by (rule cut_from_trans)
next
  case (Star a)
  from Star.prems have "st' \<in> set (star_greedy (matches a) (length (fst st)) st)"
    by simp
  then show ?case
    by (rule star_greedy_cut [rotated]) (rule Star.IH)
next
  case (LazyStar a)
  from LazyStar.prems have "st' \<in> set (star_lazy (matches a) (length (fst st)) st)"
    by simp
  then show ?case
    by (rule star_lazy_cut [rotated]) (rule LazyStar.IH)
next
  case (Group a)
  from Group.prems obtain st1 where m: "st1 \<in> set (matches a st)"
    and st': "st' = (fst st1, Some (take (length (fst st) - length (fst st1)) (fst st)))"
    by auto
  from Group.IH[OF m] have "suffix (fst st1) (fst st)"
    by (simp add: cut_from_def)
  moreover have "sublist (take (length (fst st) - length (fst st1)) (fst st)) (fst st)"
    by (simp add: prefix_imp_sublist take_is_prefix)
  ultimately show ?case
    by (simp add: st' cut_from_def)
qed

lemma re_search_sublist: "re_search p T = Some (Some t) \<Longrightarrow> sublist t T"
proof (induction T)
  case Nil
  then obtain st r where "matches p ([], None) = st # r" and "snd st = Some t"
    by (auto split: list.splits)
  then have "st \<in> set (matches p ([], None))" and g: "snd st = Some t"
    by simp_all
  then have "cut_from ([], None) st"
    by (intro matches_cut)
  with g show ?case by (auto simp: cut_from_def)
next
  case (Cons c cs)
  show ?case
  proof (cases "matches p (c # cs, None)")
    case Nil
    with Cons have "sublist t cs" by simp
    then show ?thesis by (simp add: sublist_Cons_right)
  next
    case (Cons st r)
    with Cons.prems have "snd st = Some t" by simp
    moreover from Cons have "st \<in> set (matches p (c # cs, None))"
      by simp
    then have "cut_from (c # cs, None) st"
      by (intro matches_cut)
    ultimately show ?thesis by (auto simp: cut_from_def)
  qed
qed

lemma strip_sublist: "sublist (strip T) T"
proof -
  have "prefix (strip T) (dropWhile isspace T)"
    unfolding strip_def
    by (metis prefix_def rev_append rev_rev_ident takeWhile_dropWhile_id)
  moreover have "suffix (dropWhile isspace T) T"
    by (rule suffix_dropWhile)
  ultimately show ?thesis
    by (meson prefix_imp_sublist sublist_order.order_trans suffix_imp_sublist)
qed

lemma slice_sublist: "sublist (slice T a b) T"
proof -
  have "suffix (slice T a b) (take (nat b) T)"
    by (simp add: slice_def suffix_drop)
  moreover have "prefix (take (nat b) T) T"
    by (rule take_is_prefix)
  ultimately show ?thesis
    by (meson prefix_imp_sublist sublist_order.order_trans suffix_imp_sublist)
qed

lemma try_patterns_Some:
  "try_patterns md d ps T = Some v \<Longrightarrow>
     \<exists>p\<in>set ps. \<exists>t. re_search p T = Some (Some t) \<and> json_loads md d t = Inr v"
proof (induction ps)
  case Nil
  then show ?case by simp
next
  case (Cons p ps)
  then show ?case
    by (auto simp: loads_group_def split: option.splits sum.splits)
qed


lemma outer_braces_Some:
  "outer_braces md d T = Some v \<Longrightarrow> \<exists>t. sublist t T \<and> json_loads md d t = Inr v"
  by (auto simp: outer_braces_def Let_def split: if_splits sum.splits intro: slice_sublist)

text \<open>C1, as stated, fails: the text \<open>{}\<close> is valid JSON, so the empty object is returned,
  and it has none of the required fields.\<close>

theorem always_a_forecast_record_counterexample:
  "extract_json 4300 1000 ''{}'' = Inr (JObject []) \<and> \<not> has_required_fields (JObject [])"
  by code_simp

text \<open>
  C1, amended. Whenever the recovery returns a value, that value is either what
  \<open>json.loads\<close> made of a contiguous part of the text (the trimmed text, the group of a
  pattern, or the span between the outer braces), returned without a check of its
  fields, or the synthetic record; and the synthetic record has every required field.
\<close>

theorem recovery_returns_parse_or_fallback:
  assumes "extract_json md d T = Inr v"
  shows "(v = fallback T \<or> (\<exists>t. sublist t T \<and> json_loads md d t = Inr v))
         \<and> has_required_fields (fallback T)"
proof -
  have "v = fallback T \<or> (\<exists>t. sublist t T \<and> json_loads md d t = Inr v)"
  proof (cases "json_loads md d (strip T)")
    case (Inr w)
    with assms have "w = v" by (simp add: extract_json_def)
    with Inr strip_sublist show ?thesis by blast
  next
    case (Inl e)
    with assms have e: "e = JSONDecodeError"
      by (auto simp: extract_json_def split: if_splits)
    show ?thesis
    proof (cases "try_patterns md d json_patterns T")
      case (Some w)
      with assms Inl e have "w = v" by (simp add: extract_json_def)
      with Some try_patterns_Some re_search_sublist show ?thesis by blast
    next
      case None
      show ?thesis
      proof (cases "outer_braces md d T")
        case (Some w)
        with assms Inl e None have "w = v" by (simp add: extract_json_def)
        with Some outer_braces_Some show ?thesis by blast
      next
        case n: None
        with assms Inl e None show ?thesis by (simp add: extract_json_def)
      qed
    qed
  qed
  with fallback_has_required_fields show ?thesis by blast
qed

theorem recovery_returns_parse_or_fallback_witness:
  "extract_json 4300 1000 ''I cannot comply.'' = Inr (fallback ''I cannot comply.'')
   \<and> has_required_fields (fallback ''I cannot comply.'')"
proof -
  have h: "extract_json 4300 1000 ''I cannot comply.'' = Inr (fallback ''I cannot comply.'')"
    by code_simp
  from h recovery_returns_parse_or_fallback [OF h] show ?thesis by blast
qed



section \<open>Recovery from a fenced block\<close>





lemma matches_Lit_append: "matches (Lit l) (l @ r, g) = [(r, g)]"
  by simp

lemma matches_Lit_fails: "\<not> prefix l s \<Longrightarrow> matches (Lit l) (s, g) = []"
  by simp









lemma closers_length: "r \<in> set (closers s) \<Longrightarrow> length r < length s"
  by (induction s) (auto split: if_splits)












end
